theory Spec2Isabelle
  imports Complex_Main "HOL-Library.AList"
begin

section \<open>Data model of ctrlsim.py\<close>

text \<open>
  The simulator works on a networkx \<open>DiGraph\<close> whose nodes carry a \<open>type\<close> attribute
  and whose directed edges carry the attributes \<open>capacity\<close> and \<open>used\<close>. Edge
  attributes are Python floats (the constructor fills in \<open>used = 0.0\<close>); they are
  modelled by exact reals, so \<open>/\<close> is true division and rounding is outside the model.
  A Python exception is a value of type \<open>error\<close>.
\<close>

type_synonym node = string

datatype error =
  KeyError | ValueError | NameError | ZeroDivisionError | AssertionError
  | NotImplementedError | NetworkXNoPath | NetworkXError

datatype kind = Switch | Server | Other

record edge =
  capacity :: real
  used :: real

text \<open>
  The adjacency structure \<open>graph[u][v]\<close> is an association list from node pairs to
  attribute records: \<open>map_of\<close> is the lookup, iteration follows the list.
\<close>

record graph =
  nodes :: "(node \<times> kind) list"
  edges :: "((node \<times> node) \<times> edge) list"

type_synonym path = "node list"

type_synonym flow = "path \<times> real"

text \<open>
  Graph objects are shared by reference: every controller holds a reference to a graph
  and so does the simulation, and the two may or may not be the same object. The store
  maps a reference to the graph object it denotes.
\<close>

type_synonym store = "nat \<Rightarrow> graph"

record controller =
  switches :: "node list"
  servers :: "node list"
  graph :: nat

text \<open>
  What the module takes from outside: \<open>nx.shortest_path\<close> of the graph library, and the
  module-level name \<open>i\<close> that \<open>handle_request\<close> reads in its diagnostic message.
  The file never binds \<open>i\<close> itself; it can only come from \<open>from workload import *\<close>,
  so its binding is a parameter (\<open>None\<close>: unbound, reading it raises NameError).
\<close>

record env =
  shortest_path :: "graph \<Rightarrow> node \<Rightarrow> node \<Rightarrow> error + path"
  global_i :: "int option"

text \<open>
  The state of a \<open>LinkBalancerSim\<close>: the store of graph objects, the reference
  \<open>self.graph\<close>, the dictionary \<open>self.active_flows\<close> from expiry timestep to the list
  of flows ending then, \<open>self.servers\<close> and the dictionary \<open>self.sw_to_ctrl\<close>.
\<close>

record sim =
  store :: store
  sim_graph :: nat
  active_flows :: "int \<rightharpoonup> flow list"
  sim_servers :: "node list"
  sw_to_ctrl :: "(node \<times> controller) list"

type_synonym request = "node \<times> real \<times> int"

type_synonym all_metrics = "string \<rightharpoonup> real list"

section \<open>LinkBalancerCtrl.handle\_request\<close>

text \<open>\<open>zip(path[:-1], path[1:])\<close>: the consecutive node pairs of a path.\<close>

definition links_of :: "path \<Rightarrow> (node \<times> node) list" where
  "links_of p = zip (butlast p) (tl p)"

text \<open>Step 1: one shortest path per server, from the server to the entry switch.\<close>

fun get_paths :: "env \<Rightarrow> graph \<Rightarrow> node list \<Rightarrow> node \<Rightarrow> error + path list" where
  "get_paths en g [] sw = Inr []"
| "get_paths en g (server # avail_srvs) sw =
     (case shortest_path en g server sw of
        Inl e \<Rightarrow> Inl e
      | Inr p \<Rightarrow>
          (case get_paths en g avail_srvs sw of
             Inl e \<Rightarrow> Inl e
           | Inr ps \<Rightarrow> Inr (p # ps)))"

text \<open>
  The inner loop over the links of one path. A link with no endpoint among the
  controller's switches is skipped. An oversubscribed link prints a message that reads
  the global \<open>i\<close>, then evaluates the name \<open>next\<close> (an expression without effect), and
  the loop goes on with the following link of the same path.
\<close>

fun link_metrics ::
  "env \<Rightarrow> node list \<Rightarrow> graph \<Rightarrow> real \<Rightarrow> (node \<times> node) list \<Rightarrow> real list \<Rightarrow> error + real list"
where
  "link_metrics en sws g util [] linkmetrics = Inr linkmetrics"
| "link_metrics en sws g util ((u, v) # links) linkmetrics =
     (if \<not> (v \<in> set sws \<or> u \<in> set sws) then link_metrics en sws g util links linkmetrics
      else
        (case map_of (edges g) (u, v) of
           None \<Rightarrow> Inl KeyError
         | Some attrs \<Rightarrow>
             if capacity attrs = 0 then Inl ZeroDivisionError
             else if (used attrs + util) / capacity attrs > 1 then
               (case global_i en of
                  None \<Rightarrow> Inl NameError
                | Some i \<Rightarrow> link_metrics en sws g util links linkmetrics)
             else
               link_metrics en sws g util links
                 (linkmetrics @ [(used attrs + util) / capacity attrs])))"

text \<open>Python's \<open>max\<close> of a list: ValueError on the empty list.\<close>

fun py_max :: "real list \<Rightarrow> error + real" where
  "py_max [] = Inl ValueError"
| "py_max (x # xs) = Inr (fold max xs x)"

text \<open>Step 2: the loop over the candidate paths, with \<open>bestpath\<close> and \<open>bestpathmetric\<close>.\<close>

fun choose_path ::
  "env \<Rightarrow> node list \<Rightarrow> graph \<Rightarrow> real \<Rightarrow> path list \<Rightarrow> path option \<Rightarrow> real \<Rightarrow> error + path option"
where
  "choose_path en sws g util [] bestpath bestpathmetric = Inr bestpath"
| "choose_path en sws g util (p # paths) bestpath bestpathmetric =
     (case link_metrics en sws g util (links_of p) [] of
        Inl e \<Rightarrow> Inl e
      | Inr linkmetrics \<Rightarrow>
          (case py_max linkmetrics of
             Inl e \<Rightarrow> Inl e
           | Inr pathmetric \<Rightarrow>
               if pathmetric < bestpathmetric
               then choose_path en sws g util paths (Some p) pathmetric
               else choose_path en sws g util paths bestpath bestpathmetric))"

definition handle_request ::
  "env \<Rightarrow> store \<Rightarrow> controller \<Rightarrow> node \<Rightarrow> real \<Rightarrow> int \<Rightarrow> error + path option"
where
  "handle_request en st c sw util duration =
     (case get_paths en (st (graph c)) (servers c) sw of
        Inl e \<Rightarrow> Inl e
      | Inr paths \<Rightarrow> choose_path en (switches c) (st (graph c)) util paths None 1)"

section \<open>LinkBalancerSim: allocate\_resources and free\_resources\<close>

text \<open>
  The first loop of \<open>allocate_resources\<close>: \<open>Inr False\<close> is the early \<open>return\<close> at a
  link that would go over its capacity, \<open>Inr True\<close> the end of the loop.
\<close>

fun check_links :: "graph \<Rightarrow> real \<Rightarrow> (node \<times> node) list \<Rightarrow> error + bool" where
  "check_links g resources [] = Inr True"
| "check_links g resources ((src, dst) # links) =
     (case map_of (edges g) (src, dst) of
        None \<Rightarrow> Inl KeyError
      | Some e \<Rightarrow>
          if used e + resources > capacity e then Inr False
          else check_links g resources links)"

text \<open>
  The second loop, \<open>edge['used'] += resources\<close>. A statement that raises leaves the
  graph as mutated so far, so the loop returns the graph in both cases.
\<close>

fun add_links :: "graph \<Rightarrow> real \<Rightarrow> (node \<times> node) list \<Rightarrow> error option \<times> graph" where
  "add_links g resources [] = (None, g)"
| "add_links g resources ((src, dst) # links) =
     (case map_of (edges g) (src, dst) of
        None \<Rightarrow> (Some KeyError, g)
      | Some e \<Rightarrow>
          add_links
            (g\<lparr>edges := AList.update (src, dst) (e\<lparr>used := used e + resources\<rparr>) (edges g)\<rparr>)
            resources links)"

text \<open>
  \<open>allocate_resources(path, resources, whenfree)\<close>. The path is \<open>None\<close> when the
  controller found none; \<open>not path\<close> holds for \<open>None\<close> and for the empty list.
\<close>

definition allocate_resources ::
  "sim \<Rightarrow> path option \<Rightarrow> real \<Rightarrow> int \<Rightarrow> error option \<times> sim"
where
  "allocate_resources s path_opt resources whenfree =
     (case path_opt of
        None \<Rightarrow> (None, s)
      | Some p \<Rightarrow>
          if p = [] then (None, s)
          else
            (case check_links (store s (sim_graph s)) resources (links_of p) of
               Inl e \<Rightarrow> (Some e, s)
             | Inr False \<Rightarrow> (None, s)
             | Inr True \<Rightarrow>
                 (case add_links (store s (sim_graph s)) resources (links_of p) of
                    (Some e, g') \<Rightarrow> (Some e, s\<lparr>store := (store s)(sim_graph s := g')\<rparr>)
                  | (None, g') \<Rightarrow>
                      (None,
                       s\<lparr>store := (store s)(sim_graph s := g'),
                         active_flows := (active_flows s)
                           (whenfree \<mapsto>
                              (case active_flows s whenfree of None \<Rightarrow> [] | Some fl \<Rightarrow> fl)
                                @ [(p, resources)])\<rparr>))))"

text \<open>The innermost loop of \<open>free_resources\<close>: \<open>edge['used'] -= resources\<close>.\<close>

fun sub_links :: "graph \<Rightarrow> real \<Rightarrow> (node \<times> node) list \<Rightarrow> error option \<times> graph" where
  "sub_links g resources [] = (None, g)"
| "sub_links g resources ((src, dst) # links) =
     (case map_of (edges g) (src, dst) of
        None \<Rightarrow> (Some KeyError, g)
      | Some e \<Rightarrow>
          sub_links
            (g\<lparr>edges := AList.update (src, dst) (e\<lparr>used := used e - resources\<rparr>) (edges g)\<rparr>)
            resources links)"

text \<open>The loop over the flows of one bucket.\<close>

fun free_flows :: "graph \<Rightarrow> flow list \<Rightarrow> error option \<times> graph" where
  "free_flows g [] = (None, g)"
| "free_flows g ((p, resources) # flows) =
     (case sub_links g resources (links_of p) of
        (Some e, g') \<Rightarrow> (Some e, g')
      | (None, g') \<Rightarrow> free_flows g' flows)"

definition free_resources :: "sim \<Rightarrow> int \<Rightarrow> error option \<times> sim" where
  "free_resources s timestep =
     (case active_flows s timestep of
        None \<Rightarrow> (None, s)
      | Some flows \<Rightarrow>
          (case free_flows (store s (sim_graph s)) flows of
             (Some e, g') \<Rightarrow> (Some e, s\<lparr>store := (store s)(sim_graph s := g')\<rparr>)
           | (None, g') \<Rightarrow>
               (None,
                s\<lparr>store := (store s)(sim_graph s := g'),
                  active_flows := (active_flows s)(timestep := None)\<rparr>)))"

section \<open>Balance metrics\<close>

text \<open>
  \<open>if not graph: graph = self.graph\<close>: a graph object is false when it has no nodes.
\<close>

definition resolve_graph :: "sim \<Rightarrow> graph option \<Rightarrow> graph" where
  "resolve_graph s graph_opt =
     (case graph_opt of
        None \<Rightarrow> store s (sim_graph s)
      | Some g \<Rightarrow> if nodes g = [] then store s (sim_graph s) else g)"

text \<open>The first loop of \<open>rmse_links\<close>: totals and the list of (capacity, used) pairs.\<close>

fun link_totals ::
  "((node \<times> node) \<times> edge) list \<Rightarrow> real \<Rightarrow> real \<Rightarrow> (real \<times> real) list
    \<Rightarrow> real \<times> real \<times> (real \<times> real) list"
where
  "link_totals [] used_total cap_total pairs = (used_total, cap_total, pairs)"
| "link_totals ((uv, attrs) # es) used_total cap_total pairs =
     link_totals es (used_total + used attrs) (cap_total + capacity attrs)
       (pairs @ [(capacity attrs, used attrs)])"

text \<open>
  The second loop, the same text in \<open>rmse_links\<close> and \<open>rmse_servers\<close>: the squared
  distance of each link from its share of the total. Dividing by a zero total raises.
\<close>

fun sq_values :: "real \<Rightarrow> real \<Rightarrow> (real \<times> real) list \<Rightarrow> real list \<Rightarrow> error + real list" where
  "sq_values used_total cap_total [] vals = Inr vals"
| "sq_values used_total cap_total ((cap, usd) # pairs) vals =
     (if cap_total = 0 then Inl ZeroDivisionError
      else sq_values used_total cap_total pairs
             (vals @ [\<bar>usd - (used_total / cap_total) * cap\<bar> ^ 2]))"

definition rmse_links :: "sim \<Rightarrow> graph option \<Rightarrow> error + real" where
  "rmse_links s graph_opt =
     (case link_totals (edges (resolve_graph s graph_opt)) 0 0 [] of
        (used_total, cap_total, pairs) \<Rightarrow>
          (case sq_values used_total cap_total pairs [] of
             Inl e \<Rightarrow> Inl e
           | Inr vals \<Rightarrow> Inr (sqrt (sum_list vals))))"

text \<open>\<open>graph.neighbors(s)\<close>: the successors of a node; an unknown node raises.\<close>

definition neighbors :: "graph \<Rightarrow> node \<Rightarrow> error + node list" where
  "neighbors g n =
     (if n \<in> set (map fst (nodes g))
      then Inr (map (\<lambda>kv. snd (fst kv)) (filter (\<lambda>kv. fst (fst kv) = n) (edges g)))
      else Inl NetworkXError)"

text \<open>The first loop of \<open>rmse_servers\<close>, over \<open>self.servers\<close>.\<close>

fun server_totals ::
  "graph \<Rightarrow> node list \<Rightarrow> real \<Rightarrow> real \<Rightarrow> (real \<times> real) list
    \<Rightarrow> error + real \<times> real \<times> (real \<times> real) list"
where
  "server_totals g [] cap_total used_total pairs = Inr (used_total, cap_total, pairs)"
| "server_totals g (s # srvs) cap_total used_total pairs =
     (case neighbors g s of
        Inl e \<Rightarrow> Inl e
      | Inr neighbor_sw \<Rightarrow>
          if length neighbor_sw \<noteq> 1 then Inl NotImplementedError
          else
            (case map_of (edges g) (s, neighbor_sw ! 0) of
               None \<Rightarrow> Inl KeyError
             | Some attrs \<Rightarrow>
                 server_totals g srvs (cap_total + capacity attrs) (used_total + used attrs)
                   (pairs @ [(capacity attrs, used attrs)])))"

definition rmse_servers :: "sim \<Rightarrow> graph option \<Rightarrow> error + real" where
  "rmse_servers s graph_opt =
     (case server_totals (resolve_graph s graph_opt) (sim_servers s) 0 0 [] of
        Inl e \<Rightarrow> Inl e
      | Inr (used_total, cap_total, pairs) \<Rightarrow>
          (case sq_values used_total cap_total pairs [] of
             Inl e \<Rightarrow> Inl e
           | Inr vals \<Rightarrow> Inr (sqrt (sum_list vals))))"

section \<open>LinkBalancerSim.run\<close>

text \<open>\<open>self.metric_fcns\<close> as the constructor sets it, each function with its name.\<close>

definition metric_fcns :: "(string \<times> (sim \<Rightarrow> graph option \<Rightarrow> error + real)) list" where
  "metric_fcns = [(''rmse_links'', rmse_links), (''rmse_servers'', rmse_servers)]"

text \<open>\<open>for fcn in self.metric_fcns: all_metrics[fcn.__name__] = []\<close>\<close>

fun init_metrics :: "(string \<times> 'f) list \<Rightarrow> all_metrics \<Rightarrow> all_metrics" where
  "init_metrics [] m = m"
| "init_metrics ((name, fcn) # fcns) m = init_metrics fcns (m(name \<mapsto> []))"

text \<open>The loop over the requests of timestep \<open>i\<close>.\<close>

fun handle_reqs :: "env \<Rightarrow> int \<Rightarrow> request list \<Rightarrow> sim \<Rightarrow> error option \<times> sim" where
  "handle_reqs en i [] s = (None, s)"
| "handle_reqs en i ((sw, sz, duration) # reqs) s =
     (if \<not> duration > 0 then (Some AssertionError, s)
      else
        (case map_of (sw_to_ctrl s) sw of
           None \<Rightarrow> (Some KeyError, s)
         | Some ctrl \<Rightarrow>
             (case handle_request en (store s) ctrl sw sz duration of
                Inl e \<Rightarrow> (Some e, s)
              | Inr path_opt \<Rightarrow>
                  (case allocate_resources s path_opt sz (duration + i) of
                     (Some e, s') \<Rightarrow> (Some e, s')
                   | (None, s') \<Rightarrow> handle_reqs en i reqs s'))))"

text \<open>
  \<open>for fcn in self.metric_fcns: all_metrics[fcn.__name__].append(fcn(self.graph))\<close>
\<close>

fun eval_metrics ::
  "sim \<Rightarrow> (string \<times> (sim \<Rightarrow> graph option \<Rightarrow> error + real)) list \<Rightarrow> all_metrics
    \<Rightarrow> error + all_metrics"
where
  "eval_metrics s [] m = Inr m"
| "eval_metrics s ((name, fcn) # fcns) m =
     (case fcn s (Some (store s (sim_graph s))) of
        Inl e \<Rightarrow> Inl e
      | Inr v \<Rightarrow>
          (case m name of
             None \<Rightarrow> Inl KeyError
           | Some vs \<Rightarrow> eval_metrics s fcns (m(name \<mapsto> vs @ [v]))))"

text \<open>
  \<open>for i, reqs in enumerate(workload)\<close>: free, handle the requests, measure. The
  state is returned also when an exception ends the run, as the caller finds it.
\<close>

fun run_loop ::
  "env \<Rightarrow> int \<Rightarrow> request list list \<Rightarrow> sim \<Rightarrow> all_metrics \<Rightarrow> (error + all_metrics) \<times> sim"
where
  "run_loop en i [] s m = (Inr m, s)"
| "run_loop en i (reqs # workload) s m =
     (case free_resources s i of
        (Some e, s1) \<Rightarrow> (Inl e, s1)
      | (None, s1) \<Rightarrow>
          (case handle_reqs en i reqs s1 of
             (Some e, s2) \<Rightarrow> (Inl e, s2)
           | (None, s2) \<Rightarrow>
               (case eval_metrics s2 metric_fcns m of
                  Inl e \<Rightarrow> (Inl e, s2)
                | Inr m' \<Rightarrow> run_loop en (i + 1) workload s2 m')))"

definition run :: "env \<Rightarrow> sim \<Rightarrow> request list list \<Rightarrow> (error + all_metrics) \<times> sim" where
  "run en s workload = run_loop en 0 workload s (init_metrics metric_fcns Map.empty)"

section \<open>Notions used in the statements\<close>

text \<open>
  One step \<open>graph[u][v]['used'] += d\<close> on the association list: the first entry of the
  key is the one the lookup finds and the update replaces.
\<close>

fun bump :: "'k \<Rightarrow> real \<Rightarrow> ('k \<times> edge) list \<Rightarrow> ('k \<times> edge) list" where
  "bump k d [] = []"
| "bump k d ((k', e) # xs) =
     (if k = k' then (k', e\<lparr>used := used e + d\<rparr>) # xs else (k', e) # bump k d xs)"

definition bump_links :: "real \<Rightarrow> 'k list \<Rightarrow> ('k \<times> edge) list \<Rightarrow> ('k \<times> edge) list" where
  "bump_links d ls xs = fold (\<lambda>l. bump l d) ls xs"

text \<open>The bucket of a timestep, empty when the dictionary has no such key.\<close>

definition bucket :: "sim \<Rightarrow> int \<Rightarrow> flow list" where
  "bucket s t = (case active_flows s t of None \<Rightarrow> [] | Some fl \<Rightarrow> fl)"

text \<open>Every link is an edge of the graph and takes the amount within its capacity.\<close>

definition fits :: "graph \<Rightarrow> real \<Rightarrow> (node \<times> node) list \<Rightarrow> bool" where
  "fits g a ls =
     list_all (\<lambda>l. case map_of (edges g) l of None \<Rightarrow> False | Some e \<Rightarrow> used e + a \<le> capacity e) ls"

definition present :: "graph \<Rightarrow> (node \<times> node) list \<Rightarrow> bool" where
  "present g ls = list_all (\<lambda>l. map_of (edges g) l \<noteq> None) ls"

text \<open>Some link is an edge of the graph that the amount would push over its capacity.\<close>

definition oversubscribes :: "graph \<Rightarrow> real \<Rightarrow> (node \<times> node) list \<Rightarrow> bool" where
  "oversubscribes g a ls =
     list_ex (\<lambda>l. case map_of (edges g) l of None \<Rightarrow> False | Some e \<Rightarrow> used e + a > capacity e) ls"

text \<open>What the flows of a list hold on the edge \<open>k\<close>, a link counted as often as it occurs.\<close>

definition flows_load :: "node \<times> node \<Rightarrow> flow list \<Rightarrow> real" where
  "flows_load k fl = sum_list (map (\<lambda>f. snd f * real (count_list (links_of (fst f)) k)) fl)"

text \<open>The totals of capacity and of used bandwidth over all edges of a graph.\<close>

definition cap_total :: "graph \<Rightarrow> real" where
  "cap_total g = sum_list (map (\<lambda>kv. capacity (snd kv)) (edges g))"

definition used_total :: "graph \<Rightarrow> real" where
  "used_total g = sum_list (map (\<lambda>kv. used (snd kv)) (edges g))"


text \<open>
  The number of edges that leave a node, the edges that leave the servers (in the order
  of the servers), and the graph cut down to them.
\<close>

definition out_edges :: "graph \<Rightarrow> node \<Rightarrow> ((node \<times> node) \<times> edge) list" where
  "out_edges g n = filter (\<lambda>kv. fst (fst kv) = n) (edges g)"

definition is_node :: "graph \<Rightarrow> node \<Rightarrow> bool" where
  "is_node g n = (n \<in> set (map fst (nodes g)))"

definition server_graph :: "graph \<Rightarrow> node list \<Rightarrow> graph" where
  "server_graph g srvs = g\<lparr>edges := concat (map (out_edges g) srvs)\<rparr>"







section \<open>The timestep as the specification words it\<close>

text \<open>
  Admit one demand at timestep \<open>t\<close>: a duration that is not positive is rejected before
  anything else, the owning controller is found by the entry switch, it is asked for a
  path, and the path is allocated with expiry \<open>t + duration\<close>.
\<close>

definition spec_admit :: "env \<Rightarrow> int \<Rightarrow> sim \<Rightarrow> request \<Rightarrow> error option \<times> sim" where
  "spec_admit en t s req =
     (case req of (sw, sz, duration) \<Rightarrow>
        if duration \<le> 0 then (Some AssertionError, s)
        else
          (case map_of (sw_to_ctrl s) sw of
             None \<Rightarrow> (Some KeyError, s)
           | Some ctrl \<Rightarrow>
               (case handle_request en (store s) ctrl sw sz duration of
                  Inl e \<Rightarrow> (Some e, s)
                | Inr path_opt \<Rightarrow> allocate_resources s path_opt sz (t + duration))))"

text \<open>
  The demands of a timestep in list order, each on the state the one before it left; an
  error ends the timestep.
\<close>

definition spec_admit_all :: "env \<Rightarrow> int \<Rightarrow> request list \<Rightarrow> sim \<Rightarrow> error option \<times> sim" where
  "spec_admit_all en t reqs s =
     foldl (\<lambda>r req. case r of (Some e, s') \<Rightarrow> (Some e, s') | (None, s') \<Rightarrow> spec_admit en t s' req)
       (None, s) reqs"

text \<open>One timestep up to the measurement: free first, then admit.\<close>

definition spec_timestep :: "env \<Rightarrow> int \<Rightarrow> request list \<Rightarrow> sim \<Rightarrow> error option \<times> sim" where
  "spec_timestep en t reqs s =
     (case free_resources s t of
        (Some e, s1) \<Rightarrow> (Some e, s1)
      | (None, s1) \<Rightarrow> spec_admit_all en t reqs s1)"

section \<open>Fixtures of the test suite\<close>

text \<open>\<open>two_switch_topo()\<close>, and a simulation over it with one controller per switch.\<close>

definition two_switch_topo :: graph where
  "two_switch_topo =
     \<lparr>nodes = [(''sw1'', Switch), (''sw2'', Switch), (''s1'', Server), (''s2'', Server)],
      edges = [((''s1'', ''sw1''), \<lparr>capacity = 100, used = 0\<rparr>),
               ((''sw1'', ''sw2''), \<lparr>capacity = 1000, used = 0\<rparr>),
               ((''sw2'', ''sw1''), \<lparr>capacity = 1000, used = 0\<rparr>),
               ((''s2'', ''sw2''), \<lparr>capacity = 100, used = 0\<rparr>)]\<rparr>"

definition two_switch_sim :: sim where
  "two_switch_sim =
     \<lparr>store = (\<lambda>r. two_switch_topo), sim_graph = 0, active_flows = Map.empty,
      sim_servers = [''s1'', ''s2''],
      sw_to_ctrl =
        [(''sw1'', \<lparr>switches = [''sw1''], servers = [''s1'', ''s2''], graph = 0\<rparr>),
         (''sw2'', \<lparr>switches = [''sw2''], servers = [''s1'', ''s2''], graph = 0\<rparr>)]\<rparr>"

text \<open>
  The same simulation with a ledger that holds a flow of 5 over \<open>s1 \<rightarrow> sw1\<close> ending at
  timestep 3 although the link's \<open>used\<close> is 0, as after a direct reset of \<open>used\<close>.
\<close>

definition overfreed_sim :: sim where
  "overfreed_sim = two_switch_sim\<lparr>active_flows := [3 \<mapsto> [([''s1'', ''sw1''], 5)]]\<rparr>"

text \<open>The graph of \<open>test_metric_unbalanced_known\<close>.\<close>

definition unbalanced_known :: graph where
  "unbalanced_known =
     \<lparr>nodes = [(''sw1'', Switch), (''sw2'', Switch), (''s1'', Server), (''s2'', Server)],
      edges = [((''s1'', ''sw1''), \<lparr>capacity = 100, used = 100\<rparr>),
               ((''sw1'', ''sw2''), \<lparr>capacity = 100, used = 50\<rparr>),
               ((''sw2'', ''sw1''), \<lparr>capacity = 100, used = 50\<rparr>),
               ((''s2'', ''sw2''), \<lparr>capacity = 100, used = 100\<rparr>)]\<rparr>"



text \<open>The two-switch simulation with a second link added at server \<open>s1\<close>.\<close>

definition dual_homed_sim :: sim where
  "dual_homed_sim =
     two_switch_sim
       \<lparr>store := (\<lambda>r. two_switch_topo
           \<lparr>edges := ((''s1'', ''sw2''), \<lparr>capacity = 100, used = 0\<rparr>) # edges two_switch_topo\<rparr>)\<rparr>"

text \<open>
  The shortest paths of the two-switch topology from a server to a switch, as
  \<open>nx.shortest_path\<close> finds them (each is the only shortest one), and the environment
  with them and a given binding of the global \<open>i\<close>.
\<close>

definition two_switch_paths :: "graph \<Rightarrow> node \<Rightarrow> node \<Rightarrow> error + path" where
  "two_switch_paths g src dst =
     (if src = ''s1'' \<and> dst = ''sw1'' then Inr [''s1'', ''sw1'']
      else if src = ''s1'' \<and> dst = ''sw2'' then Inr [''s1'', ''sw1'', ''sw2'']
      else if src = ''s2'' \<and> dst = ''sw2'' then Inr [''s2'', ''sw2'']
      else if src = ''s2'' \<and> dst = ''sw1'' then Inr [''s2'', ''sw2'', ''sw1'']
      else Inl NetworkXNoPath)"

definition two_switch_env :: "int option \<Rightarrow> env" where
  "two_switch_env i = \<lparr>shortest_path = two_switch_paths, global_i = i\<rparr>"

text \<open>The two-switch topology with the link \<open>s1 \<rightarrow> sw1\<close> used up to its capacity.\<close>

definition s1_full_topo :: graph where
  "s1_full_topo =
     two_switch_topo
       \<lparr>edges := [((''s1'', ''sw1''), \<lparr>capacity = 100, used = 100\<rparr>),
                  ((''sw1'', ''sw2''), \<lparr>capacity = 1000, used = 0\<rparr>),
                  ((''sw2'', ''sw1''), \<lparr>capacity = 1000, used = 0\<rparr>),
                  ((''s2'', ''sw2''), \<lparr>capacity = 100, used = 0\<rparr>)]\<rparr>"

text \<open>
  Controllers as the tests build them: one that governs both switches, one that governs
  \<open>sw1\<close> only, and one that governs \<open>sw1\<close> and knows the server \<open>s1\<close> only.
\<close>

definition both_ctrl :: controller where
  "both_ctrl = \<lparr>switches = [''sw1'', ''sw2''], servers = [''s1'', ''s2''], graph = 0\<rparr>"

definition sw1_ctrl :: controller where
  "sw1_ctrl = \<lparr>switches = [''sw1''], servers = [''s1'', ''s2''], graph = 0\<rparr>"

definition sw1_s1_ctrl :: controller where
  "sw1_s1_ctrl = \<lparr>switches = [''sw1''], servers = [''s1''], graph = 0\<rparr>"

text \<open>
  \<open>unit_workload(switches=['sw1', 'sw2'], size=1, duration=2, timesteps=1)\<close>, the
  workload of \<open>test_two_ctrl_single_step\<close>.
\<close>

definition single_step_workload :: "request list list" where
  "single_step_workload = [[(''sw1'', 1, 2), (''sw2'', 1, 2)]]"


section \<open>Updating used along a path\<close>

lemma update_bump:
  "map_of xs k = Some e \<Longrightarrow> AList.update k (e\<lparr>used := used e + d\<rparr>) xs = bump k d xs"
  by (induction xs) auto




lemma map_fst_bump: "map fst (bump k d xs) = map fst xs"
  by (induction xs) auto

lemma map_of_bump:
  "map_of (bump k d xs) k' =
     (if k = k' then map_option (\<lambda>e. e\<lparr>used := used e + d\<rparr>) (map_of xs k') else map_of xs k')"
  by (induction xs) auto

lemma bump_links_Nil: "bump_links d [] xs = xs"
  by (simp add: bump_links_def)

lemma bump_links_Cons: "bump_links d (l # ls) xs = bump_links d ls (bump l d xs)"
  by (simp add: bump_links_def)

lemma map_fst_bump_links: "map fst (bump_links d ls xs) = map fst xs"
  by (induction ls arbitrary: xs) (simp_all add: bump_links_Nil bump_links_Cons map_fst_bump)



lemma map_of_bump_links:
  "map_of (bump_links d ls xs) k =
     map_option (\<lambda>e. e\<lparr>used := used e + d * real (count_list ls k)\<rparr>) (map_of xs k)"
proof (induction ls arbitrary: xs)
  case Nil
  show ?case by (simp add: bump_links_Nil option.map_ident)
next
  case (Cons l ls)
  show ?case
    by (cases "map_of xs k") (simp_all add: bump_links_Cons Cons.IH map_of_bump algebra_simps)
qed

lemma keys_bump: "fst ` set (bump k d xs) = fst ` set xs"
  using map_fst_bump [of k d xs] by (metis set_map)

lemma add_links_bump:
  "set ls \<subseteq> fst ` set (edges g) \<Longrightarrow>
     add_links g d ls = (None, g\<lparr>edges := bump_links d ls (edges g)\<rparr>)"
proof (induction ls arbitrary: g)
  case Nil
  show ?case by (simp add: bump_links_Nil)
next
  case (Cons l ls)
  obtain src dst where l: "l = (src, dst)" by (cases l)
  from Cons.prems l have "map_of (edges g) (src, dst) \<noteq> None"
    by (simp add: map_of_eq_None_iff)
  then obtain e where e: "map_of (edges g) (src, dst) = Some e" by blast
  let ?g = "g\<lparr>edges := bump (src, dst) d (edges g)\<rparr>"
  have "set ls \<subseteq> fst ` set (edges ?g)"
    using Cons.prems by (simp add: keys_bump)
  from Cons.IH [OF this] show ?case
    using e l update_bump [OF e, of d] by (simp add: bump_links_Cons)
qed

lemma sub_links_bump:
  "set ls \<subseteq> fst ` set (edges g) \<Longrightarrow>
     sub_links g d ls = (None, g\<lparr>edges := bump_links (- d) ls (edges g)\<rparr>)"
proof (induction ls arbitrary: g)
  case Nil
  show ?case by (simp add: bump_links_Nil)
next
  case (Cons l ls)
  obtain src dst where l: "l = (src, dst)" by (cases l)
  from Cons.prems l have "map_of (edges g) (src, dst) \<noteq> None"
    by (simp add: map_of_eq_None_iff)
  then obtain e where e: "map_of (edges g) (src, dst) = Some e" by blast
  let ?g = "g\<lparr>edges := bump (src, dst) (- d) (edges g)\<rparr>"
  have "set ls \<subseteq> fst ` set (edges ?g)"
    using Cons.prems by (simp add: keys_bump)
  from Cons.IH [OF this] show ?case
    using e l update_bump [OF e, of "- d"] by (simp add: bump_links_Cons)
qed


section \<open>Allocation and release\<close>

lemma present_subset: "present g ls \<longleftrightarrow> set ls \<subseteq> fst ` set (edges g)"
  by (auto simp: present_def list_all_iff map_of_eq_None_iff)

lemma fits_present: "fits g a ls \<Longrightarrow> present g ls"
  by (auto simp: fits_def present_def list_all_iff split: option.splits)

lemma fits_Nil: "fits g a []"
  by (simp add: fits_def)

lemma fits_Cons:
  "fits g a (l # ls) \<longleftrightarrow>
     (case map_of (edges g) l of None \<Rightarrow> False | Some e \<Rightarrow> used e + a \<le> capacity e) \<and> fits g a ls"
  by (simp add: fits_def)

lemma oversubscribes_Nil: "\<not> oversubscribes g a []"
  by (simp add: oversubscribes_def)

lemma oversubscribes_Cons:
  "oversubscribes g a (l # ls) \<longleftrightarrow>
     (case map_of (edges g) l of None \<Rightarrow> False | Some e \<Rightarrow> used e + a > capacity e)
       \<or> oversubscribes g a ls"
  by (simp add: oversubscribes_def)

lemma present_Cons: "present g (l # ls) \<longleftrightarrow> map_of (edges g) l \<noteq> None \<and> present g ls"
  by (simp add: present_def)

lemma check_links_fits: "check_links g a ls = Inr True \<longleftrightarrow> fits g a ls"
  by (induction ls) (auto simp: fits_Nil fits_Cons split: option.splits if_splits)

lemma check_links_over: "oversubscribes g a ls \<Longrightarrow> check_links g a ls \<noteq> Inr True"
  by (induction ls) (auto simp: oversubscribes_Nil oversubscribes_Cons split: option.splits if_splits)

lemma check_links_present: "present g ls \<Longrightarrow> \<exists>b. check_links g a ls = Inr b"
  by (induction ls) (auto simp: present_Cons split: option.splits)

lemma allocate_rejected:
  "check_links (store s (sim_graph s)) a (links_of p) \<noteq> Inr True \<Longrightarrow>
     snd (allocate_resources s (Some p) a t) = s"
  by (auto simp: allocate_resources_def split: sum.splits bool.splits)

lemma allocate_accepted:
  assumes "p \<noteq> []" and "fits (store s (sim_graph s)) a (links_of p)"
  shows "allocate_resources s (Some p) a t =
     (None, s\<lparr>store := (store s)(sim_graph s :=
                 (store s (sim_graph s))\<lparr>edges := bump_links a (links_of p) (edges (store s (sim_graph s)))\<rparr>),
              active_flows := (active_flows s)(t \<mapsto> bucket s t @ [(p, a)])\<rparr>)"
proof -
  have c: "check_links (store s (sim_graph s)) a (links_of p) = Inr True"
    using assms(2) by (simp add: check_links_fits)
  have "set (links_of p) \<subseteq> fst ` set (edges (store s (sim_graph s)))"
    using fits_present [OF assms(2)] by (simp add: present_subset)
  from add_links_bump [OF this, of a] show ?thesis
    using assms(1) c by (simp add: allocate_resources_def bucket_def)
qed

lemma free_flows_bump:
  "list_all (\<lambda>f. present g (links_of (fst f))) fl \<Longrightarrow>
     free_flows g fl =
       (None, g\<lparr>edges := fold (\<lambda>f. bump_links (- snd f) (links_of (fst f))) fl (edges g)\<rparr>)"
proof (induction fl arbitrary: g)
  case Nil
  show ?case by simp
next
  case (Cons f fl)
  obtain p r where f: "f = (p, r)" by (cases f)
  let ?g = "g\<lparr>edges := bump_links (- r) (links_of p) (edges g)\<rparr>"
  have s: "sub_links g r (links_of p) = (None, ?g)"
    using Cons.prems f by (simp add: sub_links_bump present_subset)
  have "list_all (\<lambda>f. present ?g (links_of (fst f))) fl"
    using Cons.prems by (simp add: present_subset list_all_iff flip: set_map add: map_fst_bump_links)
  from Cons.IH [OF this] show ?case
    using s f by simp
qed

lemma map_fst_fold_bump_links:
  "map fst (fold (\<lambda>f. bump_links (- snd f) (links_of (fst f))) fl xs) = map fst xs"
  by (induction fl arbitrary: xs) (simp_all add: map_fst_bump_links)

lemma map_of_fold_bump_links:
  "map_of (fold (\<lambda>f. bump_links (- snd f) (links_of (fst f))) fl xs) k =
     map_option (\<lambda>e. e\<lparr>used := used e - flows_load k fl\<rparr>) (map_of xs k)"
proof (induction fl arbitrary: xs)
  case Nil
  show ?case by (simp add: flows_load_def option.map_ident)
next
  case (Cons f fl)
  show ?case
    by (cases "map_of xs k")
       (simp_all add: Cons.IH map_of_bump_links flows_load_def algebra_simps)
qed


section \<open>C4: allocation is all or nothing\<close>

text \<open>
  Claim C4. \<open>allocate_resources\<close> is atomic. If some link of the path is an edge with
  \<open>used + amount > capacity\<close>, the call leaves the whole state as it was (no edge
  changed, no flow recorded, so a later free at that expiry does what it would have done
  without the call), and when every link is an edge it ends without an error. If the path
  is not empty and every link fits, the call ends without an error, adds the amount to
  \<open>used\<close> on every link of the path (once per occurrence of the link, leaving capacities,
  nodes and the other edges alone) and appends the flow \<open>(path, amount)\<close> to the bucket
  of its expiry timestep. The empty path and the absent path are no-ops without error.
\<close>

theorem allocate_resources_atomic:
  "(oversubscribes (store s (sim_graph s)) a (links_of p) \<longrightarrow>
      snd (allocate_resources s (Some p) a t) = s \<and>
      (present (store s (sim_graph s)) (links_of p) \<longrightarrow>
         allocate_resources s (Some p) a t = (None, s)))
   \<and> (p \<noteq> [] \<and> fits (store s (sim_graph s)) a (links_of p) \<longrightarrow>
        (\<exists>g'. allocate_resources s (Some p) a t =
                (None, s\<lparr>store := (store s)(sim_graph s := g'),
                         active_flows := (active_flows s)(t \<mapsto> bucket s t @ [(p, a)])\<rparr>)
            \<and> nodes g' = nodes (store s (sim_graph s))
            \<and> map fst (edges g') = map fst (edges (store s (sim_graph s)))
            \<and> (\<forall>k e. map_of (edges (store s (sim_graph s))) k = Some e \<longrightarrow>
                  map_of (edges g') k =
                    Some (e\<lparr>used := used e + a * real (count_list (links_of p) k)\<rparr>))))
   \<and> allocate_resources s (Some []) a t = (None, s)
   \<and> allocate_resources s None a t = (None, s)"
proof (intro conjI impI)
  assume o: "oversubscribes (store s (sim_graph s)) a (links_of p)"
  show "snd (allocate_resources s (Some p) a t) = s"
    using check_links_over [OF o] by (rule allocate_rejected)
  assume "present (store s (sim_graph s)) (links_of p)"
  then obtain b where "check_links (store s (sim_graph s)) a (links_of p) = Inr b"
    using check_links_present by blast
  with check_links_over [OF o] show "allocate_resources s (Some p) a t = (None, s)"
    by (cases b) (simp_all add: allocate_resources_def)
next
  assume h: "p \<noteq> [] \<and> fits (store s (sim_graph s)) a (links_of p)"
  let ?g = "store s (sim_graph s)"
  let ?g' = "?g\<lparr>edges := bump_links a (links_of p) (edges ?g)\<rparr>"
  have "allocate_resources s (Some p) a t =
          (None, s\<lparr>store := (store s)(sim_graph s := ?g'),
                   active_flows := (active_flows s)(t \<mapsto> bucket s t @ [(p, a)])\<rparr>)"
    using h by (simp add: allocate_accepted)
  moreover have "nodes ?g' = nodes ?g" by simp
  moreover have "map fst (edges ?g') = map fst (edges ?g)"
    by (simp add: map_fst_bump_links)
  moreover have "\<forall>k e. map_of (edges ?g) k = Some e \<longrightarrow>
      map_of (edges ?g') k = Some (e\<lparr>used := used e + a * real (count_list (links_of p) k)\<rparr>)"
    by (simp add: map_of_bump_links)
  ultimately show "\<exists>g'. allocate_resources s (Some p) a t =
                (None, s\<lparr>store := (store s)(sim_graph s := g'),
                         active_flows := (active_flows s)(t \<mapsto> bucket s t @ [(p, a)])\<rparr>)
            \<and> nodes g' = nodes (store s (sim_graph s))
            \<and> map fst (edges g') = map fst (edges (store s (sim_graph s)))
            \<and> (\<forall>k e. map_of (edges (store s (sim_graph s))) k = Some e \<longrightarrow>
                  map_of (edges g') k =
                    Some (e\<lparr>used := used e + a * real (count_list (links_of p) k)\<rparr>))"
    by blast
next
  show "allocate_resources s (Some []) a t = (None, s)"
    by (simp add: allocate_resources_def)
  show "allocate_resources s None a t = (None, s)"
    by (simp add: allocate_resources_def)
qed

lemma two_switch_links: "links_of [''s1'', ''sw1''] = [(''s1'', ''sw1'')]"
  by (simp add: links_of_def)

theorem allocate_resources_atomic_witness:
  "allocate_resources two_switch_sim (Some [''s1'', ''sw1'']) 101 5 = (None, two_switch_sim)
   \<and> fst (allocate_resources two_switch_sim (Some [''s1'', ''sw1'']) 40 5) = None
   \<and> active_flows (snd (allocate_resources two_switch_sim (Some [''s1'', ''sw1'']) 40 5)) 5
        = Some [([''s1'', ''sw1''], 40)]
   \<and> map_of (edges (store (snd (allocate_resources two_switch_sim (Some [''s1'', ''sw1'']) 40 5)) 0))
        (''s1'', ''sw1'') = Some \<lparr>capacity = 100, used = 40\<rparr>"
proof -
  have g: "store two_switch_sim (sim_graph two_switch_sim) = two_switch_topo"
    by (simp add: two_switch_sim_def)
  have o: "oversubscribes (store two_switch_sim (sim_graph two_switch_sim)) 101
             (links_of [''s1'', ''sw1''])"
    by (simp add: g two_switch_links oversubscribes_def two_switch_topo_def)
  have p: "present (store two_switch_sim (sim_graph two_switch_sim)) (links_of [''s1'', ''sw1''])"
    by (simp add: g two_switch_links present_def two_switch_topo_def)
  have f: "fits (store two_switch_sim (sim_graph two_switch_sim)) 40 (links_of [''s1'', ''sw1''])"
    by (simp add: g two_switch_links fits_def two_switch_topo_def)
  have e: "map_of (edges (store two_switch_sim (sim_graph two_switch_sim))) (''s1'', ''sw1'')
             = Some \<lparr>capacity = 100, used = 0\<rparr>"
    by (simp add: g two_switch_topo_def)
  have b: "bucket two_switch_sim 5 = []"
    by (simp add: bucket_def two_switch_sim_def)
  have z: "sim_graph two_switch_sim = 0"
    by (simp add: two_switch_sim_def)
  note t1 = allocate_resources_atomic [of two_switch_sim 101 "[''s1'', ''sw1'']" 5]
  note t2 = allocate_resources_atomic [of two_switch_sim 40 "[''s1'', ''sw1'']" 5]
  from t1 o p have r1: "allocate_resources two_switch_sim (Some [''s1'', ''sw1'']) 101 5 = (None, two_switch_sim)"
    by blast
  from t2 f obtain g' where
    a: "allocate_resources two_switch_sim (Some [''s1'', ''sw1'']) 40 5 =
         (None, two_switch_sim\<lparr>store := (store two_switch_sim)(sim_graph two_switch_sim := g'),
            active_flows := (active_flows two_switch_sim)(5 \<mapsto> bucket two_switch_sim 5 @ [([''s1'', ''sw1''], 40)])\<rparr>)"
    and m: "\<forall>k e. map_of (edges (store two_switch_sim (sim_graph two_switch_sim))) k = Some e \<longrightarrow>
                  map_of (edges g') k =
                    Some (e\<lparr>used := used e + 40 * real (count_list (links_of [''s1'', ''sw1'']) k)\<rparr>)"
    by blast
  from m e have "map_of (edges g') (''s1'', ''sw1'') = Some \<lparr>capacity = 100, used = 40\<rparr>"
    by (simp add: two_switch_links)
  with r1 a b z show ?thesis by simp
qed

section \<open>C10: a path of one node\<close>

text \<open>
  Claim C10. For a path of exactly one node, which has no links, \<open>allocate_resources\<close>
  changes no graph (so no edge's \<open>used\<close>) but still appends a flow record for that path
  to the bucket of the given expiry timestep: the ledger entry of that timestep changes.
\<close>

theorem allocate_single_node_registers_flow:
  "allocate_resources s (Some [n]) a t =
     (None, s\<lparr>active_flows := (active_flows s)(t \<mapsto> bucket s t @ [([n], a)])\<rparr>)
   \<and> store (snd (allocate_resources s (Some [n]) a t)) = store s
   \<and> active_flows (snd (allocate_resources s (Some [n]) a t)) t \<noteq> active_flows s t"
  by (simp add: allocate_resources_def links_of_def bucket_def split: option.splits)


section \<open>C8: releasing a timestep\<close>

lemma free_resources_no_bucket:
  "active_flows s t = None \<Longrightarrow> free_resources s t = (None, s)"
  by (simp add: free_resources_def)

lemma free_resources_bucket:
  assumes "active_flows s t = Some fl"
    and "list_all (\<lambda>f. present (store s (sim_graph s)) (links_of (fst f))) fl"
  shows "free_resources s t =
     (None, s\<lparr>store := (store s)(sim_graph s :=
                 (store s (sim_graph s))\<lparr>edges :=
                    fold (\<lambda>f. bump_links (- snd f) (links_of (fst f))) fl
                      (edges (store s (sim_graph s)))\<rparr>),
              active_flows := (active_flows s)(t := None)\<rparr>)"
  using assms free_flows_bump [OF assms(2)] by (simp add: free_resources_def)

text \<open>
  Claim C8, as amended. Freeing a timestep that has no bucket changes nothing and raises
  nothing. Freeing a timestep that has a bucket whose flows run over edges of the graph
  raises nothing either: it subtracts from \<open>used\<close> of every edge what the bucket's flows
  hold on it, whatever the sign of the result, leaves nodes, edge keys and capacities
  alone, and removes the bucket.
\<close>

theorem free_resources_unchecked:
  "(active_flows s t = None \<longrightarrow> free_resources s t = (None, s))
   \<and> (active_flows s t = Some fl
        \<and> list_all (\<lambda>f. present (store s (sim_graph s)) (links_of (fst f))) fl \<longrightarrow>
        (\<exists>g'. free_resources s t =
                (None, s\<lparr>store := (store s)(sim_graph s := g'),
                         active_flows := (active_flows s)(t := None)\<rparr>)
            \<and> nodes g' = nodes (store s (sim_graph s))
            \<and> map fst (edges g') = map fst (edges (store s (sim_graph s)))
            \<and> (\<forall>k e. map_of (edges (store s (sim_graph s))) k = Some e \<longrightarrow>
                  map_of (edges g') k = Some (e\<lparr>used := used e - flows_load k fl\<rparr>))))"
proof (intro conjI impI)
  assume "active_flows s t = None"
  then show "free_resources s t = (None, s)" by (rule free_resources_no_bucket)
next
  assume h: "active_flows s t = Some fl
        \<and> list_all (\<lambda>f. present (store s (sim_graph s)) (links_of (fst f))) fl"
  let ?g = "store s (sim_graph s)"
  let ?g' = "?g\<lparr>edges := fold (\<lambda>f. bump_links (- snd f) (links_of (fst f))) fl (edges ?g)\<rparr>"
  have "free_resources s t =
          (None, s\<lparr>store := (store s)(sim_graph s := ?g'),
                   active_flows := (active_flows s)(t := None)\<rparr>)"
    using h by (simp add: free_resources_bucket)
  moreover have "nodes ?g' = nodes ?g" by simp
  moreover have "map fst (edges ?g') = map fst (edges ?g)"
    by (simp add: map_fst_fold_bump_links)
  moreover have "\<forall>k e. map_of (edges ?g) k = Some e \<longrightarrow>
      map_of (edges ?g') k = Some (e\<lparr>used := used e - flows_load k fl\<rparr>)"
    by (simp add: map_of_fold_bump_links)
  ultimately show "\<exists>g'. free_resources s t =
                (None, s\<lparr>store := (store s)(sim_graph s := g'),
                         active_flows := (active_flows s)(t := None)\<rparr>)
            \<and> nodes g' = nodes (store s (sim_graph s))
            \<and> map fst (edges g') = map fst (edges (store s (sim_graph s)))
            \<and> (\<forall>k e. map_of (edges (store s (sim_graph s))) k = Some e \<longrightarrow>
                  map_of (edges g') k = Some (e\<lparr>used := used e - flows_load k fl\<rparr>))"
    by blast
qed

theorem free_resources_unchecked_witness:
  "free_resources two_switch_sim 3 = (None, two_switch_sim)
   \<and> fst (free_resources overfreed_sim 3) = None
   \<and> active_flows (snd (free_resources overfreed_sim 3)) 3 = None
   \<and> map_of (edges (store (snd (free_resources overfreed_sim 3)) 0)) (''s1'', ''sw1'')
        = Some \<lparr>capacity = 100, used = - 5\<rparr>"
proof -
  let ?fl = "[([''s1'', ''sw1''], 5 :: real)]"
  have g: "store overfreed_sim (sim_graph overfreed_sim) = two_switch_topo"
    by (simp add: overfreed_sim_def two_switch_sim_def)
  have z: "sim_graph overfreed_sim = 0"
    by (simp add: overfreed_sim_def two_switch_sim_def)
  have n: "active_flows two_switch_sim 3 = None"
    by (simp add: two_switch_sim_def)
  have a: "active_flows overfreed_sim 3 = Some ?fl"
    by (simp add: overfreed_sim_def)
  have p: "list_all (\<lambda>f. present (store overfreed_sim (sim_graph overfreed_sim)) (links_of (fst f))) ?fl"
    by (simp add: g two_switch_links present_def two_switch_topo_def)
  have e: "map_of (edges (store overfreed_sim (sim_graph overfreed_sim))) (''s1'', ''sw1'')
             = Some \<lparr>capacity = 100, used = 0\<rparr>"
    by (simp add: g two_switch_topo_def)
  have l: "flows_load (''s1'', ''sw1'') ?fl = 5"
    by (simp add: flows_load_def two_switch_links)
  from free_resources_unchecked [of two_switch_sim 3] n
  have r1: "free_resources two_switch_sim 3 = (None, two_switch_sim)" by blast
  from free_resources_unchecked [of overfreed_sim 3 ?fl] a p obtain g' where
    f: "free_resources overfreed_sim 3 =
         (None, overfreed_sim\<lparr>store := (store overfreed_sim)(sim_graph overfreed_sim := g'),
                  active_flows := (active_flows overfreed_sim)(3 := None)\<rparr>)"
    and m: "\<forall>k e. map_of (edges (store overfreed_sim (sim_graph overfreed_sim))) k = Some e \<longrightarrow>
                  map_of (edges g') k = Some (e\<lparr>used := used e - flows_load k ?fl\<rparr>)"
    by blast
  from m e l have "map_of (edges g') (''s1'', ''sw1'') = Some \<lparr>capacity = 100, used = - 5\<rparr>"
    by simp
  with r1 f z show ?thesis by simp
qed

text \<open>
  The claim as stated fails: on a ledger that holds more than the link carries,
  \<open>free_resources\<close> returns normally and leaves \<open>used = -5\<close> on the link.
\<close>

theorem free_resources_negative_counterexample:
  "fst (free_resources overfreed_sim 3) = None
   \<and> map_option used
        (map_of (edges (store (snd (free_resources overfreed_sim 3)) 0)) (''s1'', ''sw1''))
      = Some (- 5)"
  by (simp add: free_resources_def overfreed_sim_def two_switch_sim_def two_switch_topo_def
      links_of_def)


section \<open>C5: the link metric\<close>

lemma link_totals_eq:
  "link_totals es u c ps =
     (u + sum_list (map (\<lambda>kv. used (snd kv)) es),
      c + sum_list (map (\<lambda>kv. capacity (snd kv)) es),
      ps @ map (\<lambda>kv. (capacity (snd kv), used (snd kv))) es)"
  by (induction es arbitrary: u c ps) (auto simp: algebra_simps)

lemma sq_values_eq:
  "sq_values u c pairs vals =
     (if c = 0 \<and> pairs \<noteq> [] then Inl ZeroDivisionError
      else Inr (vals @ map (\<lambda>cu. (snd cu - (u / c) * fst cu)\<^sup>2) pairs))"
  by (induction pairs arbitrary: vals) auto

lemma rmse_links_eq:
  "rmse_links s graph_opt =
     (if cap_total (resolve_graph s graph_opt) = 0 \<and> edges (resolve_graph s graph_opt) \<noteq> []
      then Inl ZeroDivisionError
      else Inr (sqrt (\<Sum>kv\<leftarrow>edges (resolve_graph s graph_opt).
                  (used (snd kv)
                    - used_total (resolve_graph s graph_opt) / cap_total (resolve_graph s graph_opt)
                      * capacity (snd kv))\<^sup>2)))"
  by (simp add: rmse_links_def link_totals_eq sq_values_eq cap_total_def used_total_def
      comp_def)

text \<open>
  Claim C5. On a graph whose total capacity is positive, \<open>rmse_links\<close> returns the
  square root of the sum, over all edges, of the squared distance between \<open>used\<close> and the
  edge's share \<open>(used_total / cap_total) * capacity\<close> of the total (the sum is not divided
  by the number of edges); on the graph of the known-value test it returns exactly 50.
\<close>

theorem rmse_links_formula:
  "(0 < cap_total (resolve_graph s graph_opt) \<longrightarrow>
      rmse_links s graph_opt =
        Inr (sqrt (\<Sum>kv\<leftarrow>edges (resolve_graph s graph_opt).
               (used (snd kv)
                 - used_total (resolve_graph s graph_opt) / cap_total (resolve_graph s graph_opt)
                   * capacity (snd kv))\<^sup>2)))
   \<and> rmse_links s (Some unbalanced_known) = Inr 50"
proof (intro conjI impI)
  assume "0 < cap_total (resolve_graph s graph_opt)"
  then show "rmse_links s graph_opt =
        Inr (sqrt (\<Sum>kv\<leftarrow>edges (resolve_graph s graph_opt).
               (used (snd kv)
                 - used_total (resolve_graph s graph_opt) / cap_total (resolve_graph s graph_opt)
                   * capacity (snd kv))\<^sup>2))"
    by (simp add: rmse_links_eq)
next
  have r: "resolve_graph s (Some unbalanced_known) = unbalanced_known"
    by (simp add: resolve_graph_def unbalanced_known_def)
  have "sqrt (50\<^sup>2) = (50 :: real)" by simp
  then have q: "sqrt 2500 = (50 :: real)" by simp
  show "rmse_links s (Some unbalanced_known) = Inr 50"
    unfolding rmse_links_eq r
    by (simp add: cap_total_def used_total_def unbalanced_known_def q)
qed

theorem rmse_links_formula_witness:
  "0 < cap_total (resolve_graph two_switch_sim None)
   \<and> rmse_links two_switch_sim None = Inr 0
   \<and> rmse_links overfreed_sim (Some unbalanced_known) = Inr 50"
proof -
  have r: "resolve_graph two_switch_sim None = two_switch_topo"
    by (simp add: resolve_graph_def two_switch_sim_def)
  have c: "0 < cap_total (resolve_graph two_switch_sim None)"
    by (simp add: r cap_total_def two_switch_topo_def)
  from rmse_links_formula [of two_switch_sim None] c
  have "rmse_links two_switch_sim None =
        Inr (sqrt (\<Sum>kv\<leftarrow>edges two_switch_topo.
               (used (snd kv) - used_total two_switch_topo / cap_total two_switch_topo
                   * capacity (snd kv))\<^sup>2))"
    by (simp add: r)
  then have "rmse_links two_switch_sim None = Inr 0"
    by (simp add: two_switch_topo_def used_total_def cap_total_def)
  with c rmse_links_formula [of overfreed_sim "Some unbalanced_known"] show ?thesis
    by simp
qed


section \<open>C3: allocate, then free\<close>
















section \<open>C9: the server metric\<close>

lemma neighbors_eq:
  "neighbors g n = (if is_node g n then Inr (map (\<lambda>kv. snd (fst kv)) (out_edges g n)) else Inl NetworkXError)"
  by (simp add: neighbors_def is_node_def out_edges_def)

lemma map_of_single_out:
  "filter (\<lambda>kv. fst (fst kv) = s) xs = [kv] \<Longrightarrow> map_of xs (s, snd (fst kv)) = Some (snd kv)"
proof (induction xs)
  case Nil
  then show ?case by simp
next
  case (Cons x xs)
  show ?case
  proof (cases "fst (fst x) = s")
    case True
    with Cons.prems have "x = kv" by simp
    with True show ?thesis by (cases kv) auto
  next
    case False
    with Cons.prems have "filter (\<lambda>kv. fst (fst kv) = s) xs = [kv]" by simp
    from Cons.IH [OF this] False show ?thesis by (cases x) auto
  qed
qed

lemma server_totals_step:
  assumes "is_node g s" and "out_edges g s = [kv]"
  shows "server_totals g (s # srvs) c u ps =
           server_totals g srvs (c + capacity (snd kv)) (u + used (snd kv))
             (ps @ [(capacity (snd kv), used (snd kv))])"
proof -
  have "map_of (edges g) (s, snd (fst kv)) = Some (snd kv)"
    using assms(2) unfolding out_edges_def by (rule map_of_single_out)
  then show ?thesis
    using assms by (simp add: neighbors_eq)
qed

lemma server_totals_bad:
  "list_ex (\<lambda>s. length (out_edges g s) \<noteq> 1) srvs \<Longrightarrow>
     server_totals g srvs c u ps = Inl NotImplementedError
     \<or> server_totals g srvs c u ps = Inl NetworkXError"
proof (induction srvs arbitrary: c u ps)
  case Nil
  then show ?case by simp
next
  case (Cons s srvs)
  show ?case
  proof (cases "is_node g s")
    case False
    then show ?thesis by (simp add: neighbors_eq)
  next
    case n: True
    show ?thesis
    proof (cases "length (out_edges g s) = 1")
      case False
      with n show ?thesis by (simp add: neighbors_eq)
    next
      case True
      then obtain kv where kv: "out_edges g s = [kv]"
        by (auto simp: length_Suc_conv)
      from True Cons.prems have "list_ex (\<lambda>s. length (out_edges g s) \<noteq> 1) srvs" by simp
      from Cons.IH [OF this] show ?thesis
        by (simp only: server_totals_step [OF n kv])
    qed
  qed
qed

lemma server_totals_bad_nodes:
  "list_ex (\<lambda>s. length (out_edges g s) \<noteq> 1) srvs \<Longrightarrow> list_all (is_node g) srvs \<Longrightarrow>
     server_totals g srvs c u ps = Inl NotImplementedError"
proof (induction srvs arbitrary: c u ps)
  case Nil
  then show ?case by simp
next
  case (Cons s srvs)
  from Cons.prems have n: "is_node g s" and ns: "list_all (is_node g) srvs" by simp_all
  show ?case
  proof (cases "length (out_edges g s) = 1")
    case False
    with n show ?thesis by (simp add: neighbors_eq)
  next
    case True
    then obtain kv where kv: "out_edges g s = [kv]"
      by (auto simp: length_Suc_conv)
    from True Cons.prems have "list_ex (\<lambda>s. length (out_edges g s) \<noteq> 1) srvs" by simp
    from Cons.IH [OF this ns] show ?thesis
      by (simp only: server_totals_step [OF n kv])
  qed
qed

lemma server_totals_good:
  "list_all (\<lambda>s. is_node g s \<and> length (out_edges g s) = 1) srvs \<Longrightarrow>
     server_totals g srvs c u ps =
       Inr (u + sum_list (map (\<lambda>kv. used (snd kv)) (concat (map (out_edges g) srvs))),
            c + sum_list (map (\<lambda>kv. capacity (snd kv)) (concat (map (out_edges g) srvs))),
            ps @ map (\<lambda>kv. (capacity (snd kv), used (snd kv))) (concat (map (out_edges g) srvs)))"
proof (induction srvs arbitrary: c u ps)
  case Nil
  then show ?case by simp
next
  case (Cons s srvs)
  from Cons.prems have n: "is_node g s" and l: "length (out_edges g s) = 1"
    and r: "list_all (\<lambda>s. is_node g s \<and> length (out_edges g s) = 1) srvs"
    by simp_all
  from l obtain kv where kv: "out_edges g s = [kv]"
    by (auto simp: length_Suc_conv)
  show ?case
    by (simp only: server_totals_step [OF n kv] Cons.IH [OF r]) (simp add: kv algebra_simps)
qed

lemma rmse_servers_good:
  assumes "list_all (\<lambda>n. is_node (resolve_graph s graph_opt) n
                        \<and> length (out_edges (resolve_graph s graph_opt) n) = 1) (sim_servers s)"
    and "sim_servers s \<noteq> []"
  shows "rmse_servers s graph_opt =
           rmse_links s (Some (server_graph (resolve_graph s graph_opt) (sim_servers s)))"
proof -
  let ?G = "resolve_graph s graph_opt"
  let ?G' = "server_graph ?G (sim_servers s)"
  from assms obtain n where "is_node ?G n"
    by (cases "sim_servers s") auto
  then have "nodes ?G' \<noteq> []"
    by (auto simp: is_node_def server_graph_def)
  then have r: "resolve_graph s (Some ?G') = ?G'"
    by (simp add: resolve_graph_def)
  show ?thesis
    unfolding rmse_links_eq r
    by (simp add: rmse_servers_def server_totals_good [OF assms(1)] sq_values_eq
        cap_total_def used_total_def server_graph_def comp_def)
qed

text \<open>
  Claim C9. When some server of the simulation has no edge or more than one edge leaving
  it in the graph, \<open>rmse_servers\<close> returns no number: it raises NotImplementedError, or
  NetworkXError at a server the graph does not know, and it is NotImplementedError when
  all servers are nodes of the graph. When every server is a node with exactly one edge
  leaving it, \<open>rmse_servers\<close> is \<open>rmse_links\<close> of the graph cut down to the edges that
  leave the servers (the same value, and the same error when their capacities sum to 0);
  with no server at all the sum is empty and the result is 0.
\<close>

theorem rmse_servers_contract:
  "(list_ex (\<lambda>n. length (out_edges (resolve_graph s graph_opt) n) \<noteq> 1) (sim_servers s) \<longrightarrow>
      (rmse_servers s graph_opt = Inl NotImplementedError
         \<or> rmse_servers s graph_opt = Inl NetworkXError)
      \<and> (list_all (is_node (resolve_graph s graph_opt)) (sim_servers s) \<longrightarrow>
           rmse_servers s graph_opt = Inl NotImplementedError))
   \<and> (sim_servers s \<noteq> []
        \<and> list_all (\<lambda>n. is_node (resolve_graph s graph_opt) n
                        \<and> length (out_edges (resolve_graph s graph_opt) n) = 1) (sim_servers s) \<longrightarrow>
        rmse_servers s graph_opt =
          rmse_links s (Some (server_graph (resolve_graph s graph_opt) (sim_servers s))))
   \<and> (sim_servers s = [] \<longrightarrow> rmse_servers s graph_opt = Inr 0)"
proof (intro conjI impI)
  assume b: "list_ex (\<lambda>n. length (out_edges (resolve_graph s graph_opt) n) \<noteq> 1) (sim_servers s)"
  from server_totals_bad [OF b, of 0 0 "[]"]
  show "rmse_servers s graph_opt = Inl NotImplementedError
         \<or> rmse_servers s graph_opt = Inl NetworkXError"
    by (auto simp: rmse_servers_def)
  assume "list_all (is_node (resolve_graph s graph_opt)) (sim_servers s)"
  from server_totals_bad_nodes [OF b this, of 0 0 "[]"]
  show "rmse_servers s graph_opt = Inl NotImplementedError"
    by (simp add: rmse_servers_def)
next
  assume "sim_servers s \<noteq> []
        \<and> list_all (\<lambda>n. is_node (resolve_graph s graph_opt) n
                        \<and> length (out_edges (resolve_graph s graph_opt) n) = 1) (sim_servers s)"
  then show "rmse_servers s graph_opt =
          rmse_links s (Some (server_graph (resolve_graph s graph_opt) (sim_servers s)))"
    by (simp add: rmse_servers_good)
next
  assume "sim_servers s = []"
  then show "rmse_servers s graph_opt = Inr 0"
    by (simp add: rmse_servers_def)
qed

theorem rmse_servers_contract_witness:
  "rmse_servers dual_homed_sim None = Inl NotImplementedError
   \<and> rmse_servers two_switch_sim None = Inr 0
   \<and> rmse_servers (two_switch_sim\<lparr>sim_servers := []\<rparr>) None = Inr 0"
proof -
  have r1: "resolve_graph dual_homed_sim None =
      two_switch_topo\<lparr>edges := ((''s1'', ''sw2''), \<lparr>capacity = 100, used = 0\<rparr>) # edges two_switch_topo\<rparr>"
    by (simp add: resolve_graph_def dual_homed_sim_def two_switch_sim_def)
  have s1: "sim_servers dual_homed_sim = [''s1'', ''s2'']"
    by (simp add: dual_homed_sim_def two_switch_sim_def)
  have b: "list_ex (\<lambda>n. length (out_edges (resolve_graph dual_homed_sim None) n) \<noteq> 1)
             (sim_servers dual_homed_sim)"
    unfolding r1 s1 by (simp add: out_edges_def two_switch_topo_def)
  have n: "list_all (is_node (resolve_graph dual_homed_sim None)) (sim_servers dual_homed_sim)"
    unfolding r1 s1 by (simp add: is_node_def two_switch_topo_def)
  have r2: "resolve_graph two_switch_sim None = two_switch_topo"
    by (simp add: resolve_graph_def two_switch_sim_def)
  have s2: "sim_servers two_switch_sim = [''s1'', ''s2'']"
    by (simp add: two_switch_sim_def)
  have g: "sim_servers two_switch_sim \<noteq> []
        \<and> list_all (\<lambda>n. is_node (resolve_graph two_switch_sim None) n
                        \<and> length (out_edges (resolve_graph two_switch_sim None) n) = 1)
             (sim_servers two_switch_sim)"
    unfolding r2 s2 by (simp add: is_node_def out_edges_def two_switch_topo_def)
  have sg: "server_graph two_switch_topo [''s1'', ''s2''] =
      two_switch_topo\<lparr>edges := [((''s1'', ''sw1''), \<lparr>capacity = 100, used = 0\<rparr>),
                                ((''s2'', ''sw2''), \<lparr>capacity = 100, used = 0\<rparr>)]\<rparr>"
    by (simp add: server_graph_def out_edges_def two_switch_topo_def)
  have rs: "resolve_graph two_switch_sim (Some (server_graph two_switch_topo [''s1'', ''s2'']))
      = server_graph two_switch_topo [''s1'', ''s2'']"
    by (simp add: resolve_graph_def server_graph_def two_switch_topo_def)
  have v: "rmse_links two_switch_sim (Some (server_graph two_switch_topo [''s1'', ''s2''])) = Inr 0"
    unfolding rmse_links_eq rs unfolding sg
    by (simp add: cap_total_def used_total_def)
  from rmse_servers_contract [of dual_homed_sim None] b n
  have 1: "rmse_servers dual_homed_sim None = Inl NotImplementedError" by blast
  from rmse_servers_contract [of two_switch_sim None] g
  have "rmse_servers two_switch_sim None =
          rmse_links two_switch_sim (Some (server_graph (resolve_graph two_switch_sim None)
             (sim_servers two_switch_sim)))"
    by blast
  with v have 2: "rmse_servers two_switch_sim None = Inr 0"
    by (simp add: r2 s2)
  from rmse_servers_contract [of "two_switch_sim\<lparr>sim_servers := []\<rparr>" None]
  have 3: "rmse_servers (two_switch_sim\<lparr>sim_servers := []\<rparr>) None = Inr 0"
    by simp
  from 1 2 3 show ?thesis by simp
qed


section \<open>C1 and C7: what handle\_request does with a path it cannot score\<close>

text \<open>
  Claim C1 fails on the code. The controller governs both switches, the link
  \<open>s1 \<rightarrow> sw1\<close> is full and a request of size 1 arrives at \<open>sw2\<close>. The candidate path
  \<open>s1, sw1, sw2\<close> has the considered link \<open>s1 \<rightarrow> sw1\<close> with projected utilization
  \<open>101/100 > 1\<close>. With the global \<open>i\<close> bound, the loop goes on past that link, scores
  the path by its other link alone (\<open>1/1000\<close>) and returns it, ahead of the path
  \<open>s2, sw2\<close> that qualifies with \<open>1/100\<close>. With \<open>i\<close> unbound the call raises NameError
  at that link and returns no path at all.
\<close>

theorem handle_request_returns_oversubscribed_path:
  "handle_request (two_switch_env (Some 0)) (\<lambda>r. s1_full_topo) both_ctrl ''sw2'' 1 2
     = Inr (Some [''s1'', ''sw1'', ''sw2''])
   \<and> (''s1'', ''sw1'') \<in> set (links_of [''s1'', ''sw1'', ''sw2''])
   \<and> ''sw1'' \<in> set (switches both_ctrl)
   \<and> map_of (edges s1_full_topo) (''s1'', ''sw1'') = Some \<lparr>capacity = 100, used = 100\<rparr>
   \<and> (100 + 1) / 100 > (1 :: real)
   \<and> handle_request (two_switch_env None) (\<lambda>r. s1_full_topo) both_ctrl ''sw2'' 1 2
       = Inl NameError"
  by (simp add: handle_request_def two_switch_env_def two_switch_paths_def both_ctrl_def
      s1_full_topo_def two_switch_topo_def links_of_def)

text \<open>
  Claim C7 fails on the code. A candidate path without a considered link leaves
  \<open>linkmetrics\<close> empty and \<open>max\<close> raises ValueError: so for the controller of \<open>sw1\<close>
  asked about a request at \<open>sw2\<close>, whose candidate \<open>s2, sw2\<close> has no link at \<open>sw1\<close>.
  And when the only candidate is oversubscribed the call does not return \<open>None\<close>: it
  raises NameError, or ValueError if the global \<open>i\<close> is bound.
\<close>

theorem handle_request_raises_on_unscored_path:
  "handle_request (two_switch_env None) (\<lambda>r. two_switch_topo) sw1_ctrl ''sw2'' 1 2
     = Inl ValueError
   \<and> handle_request (two_switch_env (Some 0)) (\<lambda>r. two_switch_topo) sw1_ctrl ''sw2'' 1 2
     = Inl ValueError
   \<and> handle_request (two_switch_env None) (\<lambda>r. s1_full_topo) sw1_s1_ctrl ''sw1'' 1 2
     = Inl NameError
   \<and> handle_request (two_switch_env (Some 0)) (\<lambda>r. s1_full_topo) sw1_s1_ctrl ''sw1'' 1 2
     = Inl ValueError"
  by (simp add: handle_request_def two_switch_env_def two_switch_paths_def sw1_ctrl_def
      sw1_s1_ctrl_def s1_full_topo_def two_switch_topo_def links_of_def)


section \<open>C2: the run loop keeps every edge within its capacity\<close>
























lemma run_single_step:
  "run (two_switch_env None) two_switch_sim single_step_workload =
     (Inr [''rmse_links'' \<mapsto> [sqrt (4 * (9 / 11)\<^sup>2)], ''rmse_servers'' \<mapsto> [0]],
      two_switch_sim
        \<lparr>store := (\<lambda>r. two_switch_topo)
           (0 := two_switch_topo
              \<lparr>edges := [((''s1'', ''sw1''), \<lparr>capacity = 100, used = 1\<rparr>),
                         ((''sw1'', ''sw2''), \<lparr>capacity = 1000, used = 1\<rparr>),
                         ((''sw2'', ''sw1''), \<lparr>capacity = 1000, used = 1\<rparr>),
                         ((''s2'', ''sw2''), \<lparr>capacity = 100, used = 1\<rparr>)]\<rparr>),
         active_flows := [2 \<mapsto> [([''s2'', ''sw2'', ''sw1''], 1), ([''s1'', ''sw1'', ''sw2''], 1)]]\<rparr>)"
  apply (simp add: run_def metric_fcns_def free_resources_def two_switch_sim_def
      handle_request_def two_switch_env_def two_switch_paths_def links_of_def
      two_switch_topo_def allocate_resources_def single_step_workload_def)
  apply (simp add: rmse_links_def rmse_servers_def resolve_graph_def neighbors_def)
  done



section \<open>C6: the order of a run\<close>

lemma spec_admit_all_error:
  "foldl (\<lambda>r req. case r of (Some e, s') \<Rightarrow> (Some e, s') | (None, s') \<Rightarrow> spec_admit en t s' req)
     (Some e, s) reqs = (Some e, s)"
  by (induction reqs) simp_all

lemma handle_reqs_spec: "handle_reqs en i reqs s = spec_admit_all en i reqs s"
proof (induction reqs arbitrary: s)
  case Nil
  show ?case by (simp add: spec_admit_all_def)
next
  case (Cons r reqs)
  obtain sw sz duration where r: "r = (sw, sz, duration)" by (cases r)
  obtain err s' where a: "spec_admit en i s r = (err, s')" by (cases "spec_admit en i s r")
  have unfold: "spec_admit_all en i (r # reqs) s =
      (case err of Some e \<Rightarrow> (Some e, s') | None \<Rightarrow> spec_admit_all en i reqs s')"
    using a by (cases err) (simp_all add: spec_admit_all_def spec_admit_all_error)
  have "handle_reqs en i (r # reqs) s =
      (case err of Some e \<Rightarrow> (Some e, s') | None \<Rightarrow> handle_reqs en i reqs s')"
    using a unfolding r
    by (auto simp: spec_admit_def add.commute split: option.splits sum.splits if_splits prod.splits)
  with unfold Cons.IH show ?case by (cases err) simp_all
qed

lemma eval_metrics_both:
  "eval_metrics s metric_fcns [''rmse_links'' \<mapsto> a, ''rmse_servers'' \<mapsto> b] =
     (case rmse_links s (Some (store s (sim_graph s))) of
        Inl e \<Rightarrow> Inl e
      | Inr v1 \<Rightarrow>
          (case rmse_servers s (Some (store s (sim_graph s))) of
             Inl e \<Rightarrow> Inl e
           | Inr v2 \<Rightarrow> Inr [''rmse_links'' \<mapsto> a @ [v1], ''rmse_servers'' \<mapsto> b @ [v2]]))"
  by (auto simp: metric_fcns_def fun_eq_iff split: sum.splits)

lemma init_metrics_both:
  "init_metrics metric_fcns Map.empty = [''rmse_links'' \<mapsto> [], ''rmse_servers'' \<mapsto> []]"
  by (simp add: metric_fcns_def)

lemma eval_metrics_Inr:
  "eval_metrics s metric_fcns [''rmse_links'' \<mapsto> accl, ''rmse_servers'' \<mapsto> accs] = Inr m1 \<Longrightarrow>
     \<exists>v1 v2. rmse_links s (Some (store s (sim_graph s))) = Inr v1
        \<and> rmse_servers s (Some (store s (sim_graph s))) = Inr v2
        \<and> m1 = [''rmse_links'' \<mapsto> accl @ [v1], ''rmse_servers'' \<mapsto> accs @ [v2]]"
  unfolding eval_metrics_both by (auto split: sum.splits)

lemma run_loop_Cons_Inr:
  "run_loop en i (reqs # w) s m0 = (Inr m, s') \<Longrightarrow>
     \<exists>s1 s2 m1. free_resources s i = (None, s1) \<and> handle_reqs en i reqs s1 = (None, s2)
        \<and> eval_metrics s2 metric_fcns m0 = Inr m1
        \<and> run_loop en (i + 1) w s2 m1 = (Inr m, s')"
  by (auto split: prod.splits option.splits sum.splits)

lemma run_loop_trace:
  "run_loop en i w s m0 = (Inr m, s') \<Longrightarrow>
   m0 = [''rmse_links'' \<mapsto> accl, ''rmse_servers'' \<mapsto> accs] \<Longrightarrow>
     \<exists>states vl vs.
        length states = length w \<and> length vl = length w \<and> length vs = length w
        \<and> m = [''rmse_links'' \<mapsto> accl @ vl, ''rmse_servers'' \<mapsto> accs @ vs]
        \<and> s' = last (s # states)
        \<and> (\<forall>t<length w.
              spec_timestep en (i + int t) (w ! t) ((s # states) ! t) = (None, states ! t)
              \<and> rmse_links (states ! t) (Some (store (states ! t) (sim_graph (states ! t))))
                  = Inr (vl ! t)
              \<and> rmse_servers (states ! t) (Some (store (states ! t) (sim_graph (states ! t))))
                  = Inr (vs ! t))"
proof (induction w arbitrary: i s m0 accl accs)
  case Nil
  from Nil.prems(1) have eq: "m = m0" and s: "s' = s"
    by simp_all
  show ?case
  proof (intro exI [of _ "[]"] conjI allI impI)
    show "m = [''rmse_links'' \<mapsto> accl @ [], ''rmse_servers'' \<mapsto> accs @ []]"
      unfolding append_Nil2 eq by (rule Nil.prems(2))
    show "s' = last [s]" using s by simp
  qed simp_all
next
  case (Cons reqs w)
  from run_loop_Cons_Inr [OF Cons.prems(1)] obtain s1 s2 m1 where
    f: "free_resources s i = (None, s1)" and h: "handle_reqs en i reqs s1 = (None, s2)"
    and e: "eval_metrics s2 metric_fcns m0 = Inr m1"
    and r: "run_loop en (i + 1) w s2 m1 = (Inr m, s')"
    by blast
  from eval_metrics_Inr [OF e [unfolded Cons.prems(2)]] obtain v1 v2 where
    v1: "rmse_links s2 (Some (store s2 (sim_graph s2))) = Inr v1"
    and v2: "rmse_servers s2 (Some (store s2 (sim_graph s2))) = Inr v2"
    and m1: "m1 = [''rmse_links'' \<mapsto> accl @ [v1], ''rmse_servers'' \<mapsto> accs @ [v2]]"
    by blast
  from Cons.IH [OF r m1] obtain states vl vs where
    l: "length states = length w" "length vl = length w" "length vs = length w"
    and m: "m = [''rmse_links'' \<mapsto> (accl @ [v1]) @ vl, ''rmse_servers'' \<mapsto> (accs @ [v2]) @ vs]"
    and s': "s' = last (s2 # states)"
    and st: "\<And>t. t < length w \<Longrightarrow>
              spec_timestep en (i + 1 + int t) (w ! t) ((s2 # states) ! t) = (None, states ! t)
              \<and> rmse_links (states ! t) (Some (store (states ! t) (sim_graph (states ! t))))
                  = Inr (vl ! t)
              \<and> rmse_servers (states ! t) (Some (store (states ! t) (sim_graph (states ! t))))
                  = Inr (vs ! t)"
    by blast
  have t0: "spec_timestep en i reqs s = (None, s2)"
    using f h by (simp add: spec_timestep_def handle_reqs_spec)
  let ?states = "s2 # states" and ?vl = "v1 # vl" and ?vs = "v2 # vs"
  have all: "\<forall>t<length (reqs # w).
              spec_timestep en (i + int t) ((reqs # w) ! t) ((s # ?states) ! t) = (None, ?states ! t)
              \<and> rmse_links (?states ! t) (Some (store (?states ! t) (sim_graph (?states ! t))))
                  = Inr (?vl ! t)
              \<and> rmse_servers (?states ! t) (Some (store (?states ! t) (sim_graph (?states ! t))))
                  = Inr (?vs ! t)"
  proof (intro allI impI)
    fix t assume t: "t < length (reqs # w)"
    show "spec_timestep en (i + int t) ((reqs # w) ! t) ((s # ?states) ! t) = (None, ?states ! t)
              \<and> rmse_links (?states ! t) (Some (store (?states ! t) (sim_graph (?states ! t))))
                  = Inr (?vl ! t)
              \<and> rmse_servers (?states ! t) (Some (store (?states ! t) (sim_graph (?states ! t))))
                  = Inr (?vs ! t)"
    proof (cases t)
      case 0
      with t0 v1 v2 show ?thesis by simp
    next
      case (Suc u)
      with t have "u < length w" by simp
      from st [OF this] Suc show ?thesis by (simp add: add.assoc)
    qed
  qed
  have m': "m = [''rmse_links'' \<mapsto> accl @ ?vl, ''rmse_servers'' \<mapsto> accs @ ?vs]"
    using m by (simp only: append_assoc append_Cons append_Nil)
  have "length ?states = length (reqs # w)" "length ?vl = length (reqs # w)"
    "length ?vs = length (reqs # w)" "s' = last (s # ?states)"
    using l s' by simp_all
  with all m' show ?case by blast
qed

text \<open>
  Claim C6. When \<open>run\<close> returns, there is one state per timestep, in the order of the
  timesteps \<open>t = 0, 1, ...\<close>: the state of timestep \<open>t\<close> comes from the one before it
  (the initial state for \<open>t = 0\<close>) by \<open>free_resources(t)\<close> first and then the demands of
  that timestep admitted in list order, each allocated with expiry \<open>t + duration\<close> on the
  state its predecessor left. The returned mapping has exactly the two metric names, each
  with a sequence of exactly one value per timestep, the value at position \<open>t\<close> being
  that metric of the state of timestep \<open>t\<close>; and the simulation is left in the last state.
\<close>

theorem run_timestep_order:
  "run en s workload = (Inr m, s') \<longrightarrow>
     (\<exists>states vl vs.
        length states = length workload \<and> length vl = length workload
        \<and> length vs = length workload
        \<and> m = [''rmse_links'' \<mapsto> vl, ''rmse_servers'' \<mapsto> vs]
        \<and> s' = last (s # states)
        \<and> (\<forall>t<length workload.
              spec_timestep en (int t) (workload ! t) ((s # states) ! t) = (None, states ! t)
              \<and> rmse_links (states ! t) (Some (store (states ! t) (sim_graph (states ! t))))
                  = Inr (vl ! t)
              \<and> rmse_servers (states ! t) (Some (store (states ! t) (sim_graph (states ! t))))
                  = Inr (vs ! t)))"
proof
  assume "run en s workload = (Inr m, s')"
  then have "run_loop en 0 workload s [''rmse_links'' \<mapsto> [], ''rmse_servers'' \<mapsto> []] = (Inr m, s')"
    by (simp add: run_def init_metrics_both)
  from run_loop_trace [OF this refl, simplified append_Nil] show "\<exists>states vl vs.
        length states = length workload \<and> length vl = length workload
        \<and> length vs = length workload
        \<and> m = [''rmse_links'' \<mapsto> vl, ''rmse_servers'' \<mapsto> vs]
        \<and> s' = last (s # states)
        \<and> (\<forall>t<length workload.
              spec_timestep en (int t) (workload ! t) ((s # states) ! t) = (None, states ! t)
              \<and> rmse_links (states ! t) (Some (store (states ! t) (sim_graph (states ! t))))
                  = Inr (vl ! t)
              \<and> rmse_servers (states ! t) (Some (store (states ! t) (sim_graph (states ! t))))
                  = Inr (vs ! t))"
    by simp
qed

theorem run_timestep_order_witness:
  "\<exists>states vl vs.
     length states = 1 \<and> length vl = 1 \<and> length vs = 1
     \<and> fst (run (two_switch_env None) two_switch_sim single_step_workload)
         = Inr [''rmse_links'' \<mapsto> vl, ''rmse_servers'' \<mapsto> vs]
     \<and> snd (run (two_switch_env None) two_switch_sim single_step_workload) = states ! 0
     \<and> spec_timestep (two_switch_env None) 0 [(''sw1'', 1, 2), (''sw2'', 1, 2)] two_switch_sim
         = (None, states ! 0)
     \<and> rmse_servers (states ! 0) (Some (store (states ! 0) (sim_graph (states ! 0)))) = Inr (vs ! 0)"
proof -
  obtain m s' where r: "run (two_switch_env None) two_switch_sim single_step_workload = (Inr m, s')"
    using run_single_step by blast
  have w: "length single_step_workload = 1" "single_step_workload ! 0 = [(''sw1'', 1, 2), (''sw2'', 1, 2)]"
    by (simp_all add: single_step_workload_def)
  from run_timestep_order [of "two_switch_env None" two_switch_sim single_step_workload m s'] r
  obtain states vl vs where
    l: "length states = length single_step_workload" "length vl = length single_step_workload"
       "length vs = length single_step_workload"
    and m: "m = [''rmse_links'' \<mapsto> vl, ''rmse_servers'' \<mapsto> vs]"
    and s': "s' = last (two_switch_sim # states)"
    and st: "\<forall>t<length single_step_workload.
              spec_timestep (two_switch_env None) (int t) (single_step_workload ! t)
                ((two_switch_sim # states) ! t) = (None, states ! t)
              \<and> rmse_links (states ! t) (Some (store (states ! t) (sim_graph (states ! t))))
                  = Inr (vl ! t)
              \<and> rmse_servers (states ! t) (Some (store (states ! t) (sim_graph (states ! t))))
                  = Inr (vs ! t)"
    by blast
  from l w obtain x where x: "states = [x]"
    by (cases states) auto
  from st w have
    "spec_timestep (two_switch_env None) (int 0) (single_step_workload ! 0)
                ((two_switch_sim # states) ! 0) = (None, states ! 0)
     \<and> rmse_servers (states ! 0) (Some (store (states ! 0) (sim_graph (states ! 0))))
                  = Inr (vs ! 0)"
    by simp
  then have "spec_timestep (two_switch_env None) 0 [(''sw1'', 1, 2), (''sw2'', 1, 2)] two_switch_sim
         = (None, states ! 0)
     \<and> rmse_servers (states ! 0) (Some (store (states ! 0) (sim_graph (states ! 0)))) = Inr (vs ! 0)"
    by (simp add: w)
  moreover have "length states = 1" "length vl = 1" "length vs = 1"
    using l w by simp_all
  moreover have "fst (run (two_switch_env None) two_switch_sim single_step_workload)
         = Inr [''rmse_links'' \<mapsto> vl, ''rmse_servers'' \<mapsto> vs]"
    unfolding r m by simp
  moreover have "snd (run (two_switch_env None) two_switch_sim single_step_workload) = states ! 0"
    unfolding r s' x by simp
  ultimately show ?thesis by blast
qed

end
